theory Spec2Isabelle
  imports Main "HOL-Library.Multiset" "HOL-Library.Word"
begin

section \<open>Strings and the index prefix\<close>

text \<open>
  Go strings are byte sequences; \<^typ>\<open>string\<close> is a list of 8-bit characters, so
  \<^const>\<open>length\<close> counts bytes as Go's \<open>len\<close> does.
\<close>

definition indexPrefix :: string where
  "indexPrefix = ''kb-rev''"

text \<open>\<open>strings.HasPrefix\<close>: \<open>len(s) >= len(prefix) && s[0:len(prefix)] == prefix\<close>.\<close>

definition HasPrefix :: "string \<Rightarrow> string \<Rightarrow> bool" where
  "HasPrefix s prefix \<longleftrightarrow> length prefix \<le> length s \<and> take (length prefix) s = prefix"

text \<open>\<open>strings.TrimPrefix\<close>: the string without the prefix, or the string itself.\<close>

definition TrimPrefix :: "string \<Rightarrow> string \<Rightarrow> string" where
  "TrimPrefix s prefix = (if HasPrefix s prefix then drop (length prefix) s else s)"


section \<open>The integer parser the handler calls\<close>

text \<open>
  The handler parses the remainder of an index name with \<open>strconv.Atoi\<close>, a function of
  Go's standard library. Its result type \<open>int\<close> has 32 or 64 bits, depending on the
  platform the program is built for; both are modelled.
\<close>

datatype IntSize = Int32 | Int64

fun intSize :: "IntSize \<Rightarrow> nat" where
  "intSize Int32 = 32"
| "intSize Int64 = 64"

text \<open>Two's-complement wrap-around into a signed integer of \<open>w\<close> bits, and into \<open>uint64\<close>.\<close>

definition wrap_signed :: "nat \<Rightarrow> int \<Rightarrow> int" where
  "wrap_signed w x = (x + 2 ^ (w - 1)) mod 2 ^ w - 2 ^ (w - 1)"

definition to_int :: "IntSize \<Rightarrow> int \<Rightarrow> int" where
  "to_int a x = wrap_signed (intSize a) x"

definition to_int64 :: "int \<Rightarrow> int" where
  "to_int64 x = wrap_signed 64 x"

definition to_uint64 :: "nat \<Rightarrow> nat" where
  "to_uint64 x = x mod 2 ^ 64"

text \<open>
  \<open>strconv.NumError\<close> carries one of two causes. The function name and the input text it
  also records are left out: the handler only tests the error against \<open>nil\<close>.
\<close>

datatype NumError = ErrSyntax | ErrRange

text \<open>
  A Go function returning \<open>(value, error)\<close> is a pair whose second component is
  \<open>None\<close> for \<open>nil\<close>: \<open>strconv.ParseInt\<close> reads the value \<open>ParseUint\<close> returns
  together with a range error.
\<close>

text \<open>
  The fast path of \<open>Atoi\<close>: \<open>ch -= '0'; if ch > 9 { syntax error }; n = n*10 + int(ch)\<close>,
  with \<open>ch\<close> a byte (the subtraction wraps modulo 256) and \<open>n\<close> an \<open>int\<close>.
\<close>

definition sub_byte :: "nat \<Rightarrow> nat \<Rightarrow> nat" where
  "sub_byte x y = (x + 256 - y) mod 256"

fun Atoi_loop :: "IntSize \<Rightarrow> int \<Rightarrow> string \<Rightarrow> int \<times> NumError option" where
  "Atoi_loop a n [] = (n, None)"
| "Atoi_loop a n (c # cs) =
     (let ch = sub_byte (of_char c) 48
      in if ch > 9 then (0, Some ErrSyntax)
         else Atoi_loop a (to_int a (n * 10 + int ch)) cs)"

text \<open>
  The digit loop of \<open>strconv.ParseUint\<close> at base 10. A byte outside \<open>'0'..'9'\<close> is a
  syntax error there: an underscore is only skipped at base 0, and a letter is a digit of
  value 10 or more, which is not below the base. \<open>cutoff\<close> is \<open>maxUint64/10 + 1\<close>.
\<close>

definition maxUint64 :: nat where
  "maxUint64 = 2 ^ 64 - 1"

definition cutoff10 :: nat where
  "cutoff10 = maxUint64 div 10 + 1"

fun ParseUint_loop :: "nat \<Rightarrow> nat \<Rightarrow> string \<Rightarrow> nat \<times> NumError option" where
  "ParseUint_loop maxVal n [] = (n, None)"
| "ParseUint_loop maxVal n (c # cs) =
     (if \<not> (48 \<le> (of_char c :: nat) \<and> (of_char c :: nat) \<le> 57) then (0, Some ErrSyntax)
      else
        let d = of_char c - 48 :: nat
        in if n \<ge> cutoff10 then (maxVal, Some ErrRange)
           else
             let n10 = to_uint64 (n * 10);
                 n1 = to_uint64 (n10 + d)
             in if n1 < n10 \<or> n1 > maxVal then (maxVal, Some ErrRange)
                else ParseUint_loop maxVal n1 cs)"

text \<open>
  \<open>ParseUint(s, 10, 0)\<close>: bit size 0 stands for the size of \<open>int\<close>;
  \<open>maxVal := uint64(1)<<uint(bitSize) - 1\<close>, where the shift by 64 gives 0 and the
  subtraction wraps.
\<close>

definition maxVal :: "IntSize \<Rightarrow> nat" where
  "maxVal a = to_uint64 (to_uint64 (if intSize a < 64 then 2 ^ intSize a else 0) + 2 ^ 64 - 1)"

definition ParseUint :: "IntSize \<Rightarrow> string \<Rightarrow> nat \<times> NumError option" where
  "ParseUint a s = (if s = [] then (0, Some ErrSyntax) else ParseUint_loop (maxVal a) 0 s)"

text \<open>
  \<open>ParseInt(s, 10, 0)\<close>: picks off a leading sign, converts the rest unsigned, and checks
  the range against \<open>cutoff := uint64(1 << uint(bitSize-1))\<close>.
\<close>

definition ParseInt :: "IntSize \<Rightarrow> string \<Rightarrow> int \<times> NumError option" where
  "ParseInt a s =
     (if s = [] then (0, Some ErrSyntax)
      else
        let neg = (s ! 0 = CHR ''-'');
            s1 = (if s ! 0 = CHR ''+'' \<or> s ! 0 = CHR ''-'' then drop 1 s else s)
        in case ParseUint a s1 of (un, err) \<Rightarrow>
             if err \<noteq> None \<and> err \<noteq> Some ErrRange then (0, err)
             else
               let cutoff = 2 ^ (intSize a - 1) :: nat
               in if \<not> neg \<and> un \<ge> cutoff then (to_int64 (int (cutoff - 1)), Some ErrRange)
                  else if neg \<and> un > cutoff then (to_int64 (- to_int64 (int cutoff)), Some ErrRange)
                  else
                    let n = to_int64 (int un)
                    in (if neg then to_int64 (- n) else n, None))"

text \<open>
  \<open>strconv.Atoi\<close>: the fast path for short inputs (fewer than 10 bytes on 32 bits, fewer
  than 19 on 64 bits), \<open>ParseInt(s, 10, 0)\<close> converted to \<open>int\<close> otherwise.
\<close>

definition Atoi :: "IntSize \<Rightarrow> string \<Rightarrow> int \<times> NumError option" where
  "Atoi a s =
     (let sLen = length s
      in if (intSize a = 32 \<and> 0 < sLen \<and> sLen < 10) \<or> (intSize a = 64 \<and> 0 < sLen \<and> sLen < 19)
         then
           let signed = (s ! 0 = CHR ''-'' \<or> s ! 0 = CHR ''+'');
               s1 = (if signed then drop 1 s else s)
           in if signed \<and> length s1 < 1 then (0, Some ErrSyntax)
              else
                case Atoi_loop a 0 s1 of
                  (n, Some e) \<Rightarrow> (0, Some e)
                | (n, None) \<Rightarrow> (if s ! 0 = CHR ''-'' then to_int a (- n) else n, None)
         else
           case ParseInt a s of (i64, err) \<Rightarrow> (to_int a i64, err))"


section \<open>What the specification calls a base-10 signed integer\<close>

text \<open>
  These definitions follow the specification's words, not the parser: an optional sign
  followed by at least one decimal digit, read as an unbounded integer. They are what the
  parser above is compared with.
\<close>

definition isDigit :: "char \<Rightarrow> bool" where
  "isDigit c \<longleftrightarrow> 48 \<le> (of_char c :: nat) \<and> (of_char c :: nat) \<le> 57"

fun decimal_from :: "nat \<Rightarrow> string \<Rightarrow> nat" where
  "decimal_from n [] = n"
| "decimal_from n (c # cs) = decimal_from (10 * n + (of_char c - 48)) cs"

definition signed_decimal :: "string \<Rightarrow> int option" where
  "signed_decimal s =
     (case s of
        [] \<Rightarrow> None
      | c # cs \<Rightarrow>
          let ds = (if c = CHR ''+'' \<or> c = CHR ''-'' then cs else s)
          in if ds = [] \<or> \<not> list_all isDigit ds then None
             else Some (if c = CHR ''-'' then - int (decimal_from 0 ds)
                        else int (decimal_from 0 ds)))"

text \<open>The least and the greatest value of Go's \<open>int\<close>.\<close>

definition minInt :: "IntSize \<Rightarrow> int" where
  "minInt a = - (2 ^ (intSize a - 1))"

definition maxInt :: "IntSize \<Rightarrow> int" where
  "maxInt a = 2 ^ (intSize a - 1) - 1"


section \<open>The view model\<close>

text \<open>The types \<open>DataIndex\<close>, \<open>DataKind\<close> and \<open>Data\<close> the handler declares.\<close>

record DataIndex =
  Index :: string
  Rev :: int

record DataKind =
  Kind :: string
  Count :: "64 word"

record Data =
  Kinds :: "DataKind list"
  Indices :: "DataIndex list"


section \<open>Sorting\<close>

text \<open>
  \<open>sort.Slice\<close> belongs to Go's standard library and is documented as not stable: the
  order it gives to elements that compare equal depends on the library's algorithm. It is
  a parameter of the model, a function from the comparison and the slice to the sorted
  slice, constrained by what the library documents: the result is a rearrangement of the
  slice, and it is ordered whenever \<open>less\<close> is a strict weak ordering.
\<close>

type_synonym 'a sorter = "('a \<Rightarrow> 'a \<Rightarrow> bool) \<Rightarrow> 'a list \<Rightarrow> 'a list"

definition strict_weak_order :: "('a \<Rightarrow> 'a \<Rightarrow> bool) \<Rightarrow> bool" where
  "strict_weak_order lt \<longleftrightarrow>
     (\<forall>x. \<not> lt x x) \<and>
     (\<forall>x y z. lt x y \<longrightarrow> lt y z \<longrightarrow> lt x z) \<and>
     (\<forall>x y z. lt x z \<longrightarrow> lt x y \<or> lt y z)"

definition sort_Slice_ok :: "'a sorter \<Rightarrow> bool" where
  "sort_Slice_ok sort_Slice \<longleftrightarrow>
     (\<forall>lt xs.
        mset (sort_Slice lt xs) = mset xs \<and>
        (strict_weak_order lt \<longrightarrow> sorted_wrt (\<lambda>x y. \<not> lt y x) (sort_Slice lt xs)))"

text \<open>
  One sorter that meets the contract, on which the model is evaluated at concrete inputs:
  insertion sort as the package \<open>sort\<close> writes it, where each element in turn moves
  left past the elements it is less than.
\<close>

fun insert_by :: "('a \<Rightarrow> 'a \<Rightarrow> bool) \<Rightarrow> 'a \<Rightarrow> 'a list \<Rightarrow> 'a list" where
  "insert_by lt x [] = [x]"
| "insert_by lt x (y # ys) = (if lt x y then x # y # ys else y # insert_by lt x ys)"

fun insertionSort_loop :: "('a \<Rightarrow> 'a \<Rightarrow> bool) \<Rightarrow> 'a list \<Rightarrow> 'a list \<Rightarrow> 'a list" where
  "insertionSort_loop lt acc [] = acc"
| "insertionSort_loop lt acc (x # xs) = insertionSort_loop lt (insert_by lt x acc) xs"

definition insertionSort :: "'a sorter" where
  "insertionSort lt xs = insertionSort_loop lt [] xs"


section \<open>The Revision Resolver\<close>

text \<open>
  The response of \<open>CatIndices\<close> is a list of rows of which the handler reads the field
  \<open>Index\<close> only; it is modelled as the list of these index names.

  The loop over the rows: a name without the prefix is skipped, a name whose remainder
  \<open>Atoi\<close> rejects is skipped, every other name is appended with its revision.
\<close>

fun Indices_loop :: "IntSize \<Rightarrow> string list \<Rightarrow> DataIndex list \<Rightarrow> DataIndex list" where
  "Indices_loop a [] indices = indices"
| "Indices_loop a (item # res) indices =
     (if \<not> HasPrefix item indexPrefix then Indices_loop a res indices
      else
        case Atoi a (TrimPrefix item indexPrefix) of
          (rv, None) \<Rightarrow> Indices_loop a res (indices @ [\<lparr>Index = item, Rev = rv\<rparr>])
        | (rv, Some err) \<Rightarrow> Indices_loop a res indices)"

text \<open>
  The loop, \<open>sort.Slice\<close> with \<open>less(i, j) = Indices[i].Rev > Indices[j].Rev\<close>, and the
  entry appended when nothing was collected.
\<close>

definition resolve :: "DataIndex sorter \<Rightarrow> IntSize \<Rightarrow> string list \<Rightarrow> DataIndex list" where
  "resolve sort_Slice a res =
     (let indices = sort_Slice (\<lambda>x y. Rev x > Rev y) (Indices_loop a res [])
      in if length indices = 0 then indices @ [\<lparr>Index = indexPrefix @ ''1'', Rev = 1\<rparr>]
         else indices)"


section \<open>The Kind Aggregator\<close>

text \<open>
  A bucket key is decoded from JSON into an untyped value: a string, a number
  (\<open>float64\<close>), a boolean or \<open>nil\<close>. Floating-point numbers are not modelled: their type
  is the parameter \<open>'f\<close> and their rendering by \<open>%v\<close> the parameter \<open>fmt\<close>.
\<close>

datatype 'f KeyValue = KeyString string | KeyNumber 'f | KeyBool bool | KeyNil

fun Sprintf_v :: "('f \<Rightarrow> string) \<Rightarrow> 'f KeyValue \<Rightarrow> string" where
  "Sprintf_v fmt (KeyString s) = s"
| "Sprintf_v fmt (KeyNumber x) = fmt x"
| "Sprintf_v fmt (KeyBool b) = (if b then ''true'' else ''false'')"
| "Sprintf_v fmt KeyNil = ''<nil>''"

record 'f AggregationBucketKeyItem =
  Key :: "'f KeyValue"
  DocCount :: "64 word"

record 'f AggregationBucketKeyItems =
  Buckets :: "'f AggregationBucketKeyItem list"

fun Kinds_loop ::
  "('f \<Rightarrow> string) \<Rightarrow> 'f AggregationBucketKeyItem list \<Rightarrow> DataKind list \<Rightarrow> DataKind list" where
  "Kinds_loop fmt [] kinds = kinds"
| "Kinds_loop fmt (bucket # buckets) kinds =
     Kinds_loop fmt buckets
       (kinds @ [\<lparr>Kind = Sprintf_v fmt (Key bucket), Count = DocCount bucket\<rparr>])"

text \<open>\<open>if items, _ := res.Aggregations.Terms("kinds"); items != nil { for ... }\<close>\<close>

definition aggregate ::
  "('f \<Rightarrow> string) \<Rightarrow> 'f AggregationBucketKeyItems option \<Rightarrow> DataKind list" where
  "aggregate fmt items =
     (case items of None \<Rightarrow> [] | Some its \<Rightarrow> Kinds_loop fmt (Buckets its) [])"


section \<open>The request handler and the access-token middleware\<close>

text \<open>
  The search-engine client is modelled by the answers it gives during one request: an
  error of the opaque type \<open>'e\<close>, or a result. \<open>Aggregations\<close> maps the name of an
  aggregation to its decoded buckets; \<open>Terms\<close> yields \<open>nil\<close> for a name that is missing.
\<close>

record 'f SearchResult =
  Aggregations :: "string \<Rightarrow> 'f AggregationBucketKeyItems option"

definition Terms ::
  "(string \<Rightarrow> 'f AggregationBucketKeyItems option) \<Rightarrow> string \<Rightarrow> 'f AggregationBucketKeyItems option" where
  "Terms aggs name = aggs name"

record ('e, 'f) Client =
  CatIndices_Do :: "'e + string list"
  Search_Do :: "'e + 'f SearchResult"

text \<open>
  What a handler does is recorded as the list of calls it made to the search engine, in
  order, and how it ended: by writing a plain string, by rendering a template with the
  view model, or by returning an error.
\<close>

datatype Call = CatIndicesCall | SearchCall

datatype 'e Outcome = String nat string | Render nat string Data | Failed 'e

record Context =
  Path :: string
  QueryParams :: "(string \<times> string) list"

text \<open>\<open>c.QueryParam(name)\<close>: the first value given for the name, the empty string if none.\<close>

definition QueryParam :: "Context \<Rightarrow> string \<Rightarrow> string" where
  "QueryParam c name = (case map_of (QueryParams c) name of None \<Rightarrow> [] | Some v \<Rightarrow> v)"

definition StatusOK :: nat where
  "StatusOK = 200"

definition StatusForbidden :: nat where
  "StatusForbidden = 403"

text \<open>The handler of \<open>GET /\<close>.\<close>

definition dashboard ::
  "DataIndex sorter \<Rightarrow> IntSize \<Rightarrow> ('f \<Rightarrow> string) \<Rightarrow> ('e, 'f) Client \<Rightarrow> Context
     \<Rightarrow> Call list \<times> 'e Outcome" where
  "dashboard sort_Slice a fmt client c =
     (case CatIndices_Do client of
        Inl err \<Rightarrow> ([CatIndicesCall], Failed err)
      | Inr res \<Rightarrow>
          (let indices = resolve sort_Slice a res
           in (case Search_Do client of
                 Inl err \<Rightarrow> ([CatIndicesCall, SearchCall], Failed err)
               | Inr sres \<Rightarrow>
                   (let kinds = aggregate fmt (Terms (Aggregations sres) ''kinds'')
                    in ([CatIndicesCall, SearchCall],
                        Render StatusOK ''index'' \<lparr>Kinds = kinds, Indices = indices\<rparr>)))))"

text \<open>
  The middleware in front of every handler:
  \<open>if c.Path() != "/" && c.QueryParam("access_token") != envAccessToken\<close> it answers 403
  itself, otherwise it calls \<open>next\<close>. \<open>Path\<close> is the path of the route the request was
  matched to, as \<open>c.Path()\<close> reports it. The two other middlewares of the program, the
  recovery from panics and the loading of the templates, neither read the token nor call
  the search engine; they are not part of the model.
\<close>

definition access_token_middleware ::
  "string \<Rightarrow> (Context \<Rightarrow> Call list \<times> 'e Outcome) \<Rightarrow> Context \<Rightarrow> Call list \<times> 'e Outcome" where
  "access_token_middleware envAccessToken next c =
     (if Path c \<noteq> ''/'' \<and> QueryParam c ''access_token'' \<noteq> envAccessToken
      then ([], String StatusForbidden ''invalid access_token'')
      else next c)"


section \<open>Bytes and decimal digits\<close>

lemma byte_sub_nat:
  fixes x :: nat
  assumes "x < 256"
  shows "(x + 256 - 48) mod 256 = (if x < 48 then x + 208 else x - 48)"
proof (cases "x < 48")
  case True
  then have "x + 256 - 48 = x + 208" by simp
  moreover have "x + 208 < 256" using True by simp
  ultimately show ?thesis using True by simp
next
  case False
  then have e: "x + 256 - 48 = (x - 48) + 256" by arith
  have "((x - 48) + 256) mod 256 = (x - 48) mod 256" by (rule mod_add_self2)
  also have "\<dots> = x - 48" using assms by (intro mod_less) arith
  finally have "(x + 256 - 48) mod 256 = x - 48" by (simp only: e)
  then show ?thesis using False by (simp only: if_False)
qed

lemma of_char_lt_256: "(of_char c :: nat) < 256"
proof -
  have "(of_char c :: nat) mod 256 = of_char c" by simp
  then show ?thesis by (metis mod_less_divisor zero_less_numeral)
qed

lemma sub_byte_digit: "sub_byte (of_char c) 48 > 9 \<longleftrightarrow> \<not> isDigit c"
  unfolding isDigit_def sub_byte_def byte_sub_nat [OF of_char_lt_256] by auto

lemma sub_byte_digit_val: "isDigit c \<Longrightarrow> sub_byte (of_char c) 48 = of_char c - 48"
  unfolding isDigit_def sub_byte_def byte_sub_nat [OF of_char_lt_256] by auto

lemma digit_le_9: "isDigit c \<Longrightarrow> (of_char c - 48 :: nat) \<le> 9"
  unfolding isDigit_def by auto

lemma decimal_from_ge: "n \<le> decimal_from n cs"
proof (induction cs arbitrary: n)
  case Nil
  show ?case by simp
next
  case (Cons c cs)
  have "n \<le> 10 * n + (of_char c - 48)" by simp
  also have "\<dots> \<le> decimal_from (10 * n + (of_char c - 48)) cs" by (rule Cons.IH)
  finally show ?case by simp
qed

lemma decimal_from_snoc:
  "decimal_from n (cs @ [c]) = 10 * decimal_from n cs + (of_char c - 48)"
  by (induction cs arbitrary: n) auto

lemma decimal_from_0_lt: "list_all isDigit cs \<Longrightarrow> decimal_from 0 cs < 10 ^ length cs"
proof (induction cs rule: rev_induct)
  case Nil
  show ?case by simp
next
  case (snoc c cs)
  then have d: "(of_char c - 48 :: nat) \<le> 9" and ih: "decimal_from 0 cs < 10 ^ length cs"
    by (simp_all add: digit_le_9)
  from ih have "decimal_from 0 cs + 1 \<le> 10 ^ length cs" by simp
  then have "10 * (decimal_from 0 cs + 1) \<le> 10 * 10 ^ length cs" by (rule mult_le_mono2)
  with d show ?case by (simp add: decimal_from_snoc)
qed

section \<open>The fast path of Atoi\<close>

lemma to_int_id: "minInt a \<le> x \<Longrightarrow> x \<le> maxInt a \<Longrightarrow> to_int a x = x"
  by (cases a) (simp_all add: to_int_def wrap_signed_def minInt_def maxInt_def)

lemma to_int64_id:
  "- 9223372036854775808 \<le> x \<Longrightarrow> x \<le> 9223372036854775807 \<Longrightarrow> to_int64 x = x"
  by (simp add: to_int64_def wrap_signed_def)

lemma minInt_le_0: "minInt a \<le> 0"
  by (cases a) (simp_all add: minInt_def)

lemma Atoi_loop_digits:
  "list_all isDigit cs \<Longrightarrow> int (decimal_from n cs) \<le> maxInt a \<Longrightarrow>
   Atoi_loop a (int n) cs = (int (decimal_from n cs), None)"
proof (induction cs arbitrary: n)
  case Nil
  show ?case by simp
next
  case (Cons c cs)
  let ?d = "of_char c - 48 :: nat"
  let ?n = "10 * n + ?d"
  from Cons.prems have dig: "isDigit c" and rest: "list_all isDigit cs" by simp_all
  from Cons.prems have bound: "int (decimal_from ?n cs) \<le> maxInt a" by simp
  have "int ?n \<le> int (decimal_from ?n cs)" using decimal_from_ge [of ?n cs] by simp
  with bound have "int ?n \<le> maxInt a" by simp
  moreover have "minInt a \<le> int ?n" using minInt_le_0 [of a] by simp
  ultimately have id: "to_int a (int ?n) = int ?n" by (rule to_int_id [rotated])
  have e: "int n * 10 + int ?d = int ?n" by simp
  have w: "to_int a (int n * 10 + int ?d) = int ?n" unfolding e by (rule id)
  have "\<not> sub_byte (of_char c) 48 > 9" using dig by (simp add: sub_byte_digit)
  then have "Atoi_loop a (int n) (c # cs) = Atoi_loop a (int ?n) cs"
    using dig w by (simp add: sub_byte_digit_val Let_def)
  also have "\<dots> = (int (decimal_from ?n cs), None)" using rest bound by (rule Cons.IH)
  finally show ?case by simp
qed

lemma Atoi_loop_syntax:
  "\<not> list_all isDigit cs \<Longrightarrow> Atoi_loop a n cs = (0, Some ErrSyntax)"
proof (induction cs arbitrary: n)
  case Nil
  then show ?case by simp
next
  case (Cons c cs)
  show ?case
  proof (cases "isDigit c")
    case True
    with Cons.prems have "\<not> list_all isDigit cs" by simp
    then have "Atoi_loop a (to_int a (n * 10 + int (sub_byte (of_char c) 48))) cs = (0, Some ErrSyntax)"
      by (rule Cons.IH)
    moreover have "\<not> sub_byte (of_char c) 48 > 9" using True by (simp add: sub_byte_digit)
    ultimately show ?thesis by (simp add: Let_def)
  next
    case False
    then have "sub_byte (of_char c) 48 > 9" by (simp add: sub_byte_digit)
    then show ?thesis by (simp add: Let_def)
  qed
qed

section \<open>The digit loop of ParseUint\<close>

lemma maxUint64_val: "maxUint64 = 18446744073709551615"
  by (simp add: maxUint64_def)

lemma cutoff10_val: "cutoff10 = 1844674407370955162"
  by (simp add: cutoff10_def maxUint64_def)

lemma to_uint64_id: "x \<le> 18446744073709551615 \<Longrightarrow> to_uint64 x = x"
  by (simp add: to_uint64_def)

lemma to_uint64_wrap:
  "18446744073709551615 < x \<Longrightarrow> x < 36893488147419103232 \<Longrightarrow>
   to_uint64 x = x - 18446744073709551616"
proof -
  assume a: "18446744073709551615 < x" and b: "x < 36893488147419103232"
  have "x = (x - 18446744073709551616) + 18446744073709551616" using a by simp
  then have "x mod 18446744073709551616 = (x - 18446744073709551616) mod 18446744073709551616"
    by (metis mod_add_self2)
  also have "\<dots> = x - 18446744073709551616" using b by (intro mod_less) simp
  finally show ?thesis by (simp add: to_uint64_def)
qed

lemma ParseUint_loop_nondigit:
  "\<not> isDigit c \<Longrightarrow> ParseUint_loop M n (c # cs) = (0, Some ErrSyntax)"
  by (simp add: isDigit_def)

lemma ParseUint_loop_digit:
  assumes "isDigit c" and "d = of_char c - 48"
  shows "ParseUint_loop M n (c # cs) =
    (if cutoff10 \<le> n then (M, Some ErrRange)
     else if to_uint64 (to_uint64 (n * 10) + d) < to_uint64 (n * 10) \<or>
             M < to_uint64 (to_uint64 (n * 10) + d)
          then (M, Some ErrRange)
          else ParseUint_loop M (to_uint64 (to_uint64 (n * 10) + d)) cs)"
proof -
  have dig: "48 \<le> (of_char c :: nat)" "(of_char c :: nat) \<le> 57"
    using assms(1) by (simp_all add: isDigit_def)
  show ?thesis
    unfolding assms(2) using dig
    by (simp only: ParseUint_loop.simps Let_def simp_thms if_True if_False)
qed

lemma ParseUint_loop_step:
  assumes "isDigit c" and "10 * n + (of_char c - 48) \<le> M" and "M \<le> maxUint64"
  shows "ParseUint_loop M n (c # cs) = ParseUint_loop M (10 * n + (of_char c - 48)) cs"
proof -
  define d :: nat where "d = of_char c - 48"
  from assms have le: "10 * n + d \<le> 18446744073709551615" by (simp add: maxUint64_val d_def)
  then have n: "\<not> cutoff10 \<le> n" by (simp add: cutoff10_val)
  have n10: "to_uint64 (n * 10) = n * 10" using le by (intro to_uint64_id) simp
  have n1: "to_uint64 (n * 10 + d) = 10 * n + d" using le by (simp add: to_uint64_id)
  have "10 * n + d \<le> M" using assms(2) by (simp add: d_def)
  then have "ParseUint_loop M n (c # cs) = ParseUint_loop M (10 * n + d) cs"
    unfolding ParseUint_loop_digit [OF assms(1) d_def] using n by (simp add: n10 n1)
  then show ?thesis by (simp only: d_def)
qed

lemma ParseUint_loop_over:
  assumes "isDigit c" and "M < 10 * n + (of_char c - 48)" and "M \<le> maxUint64"
  shows "ParseUint_loop M n (c # cs) = (M, Some ErrRange)"
proof (cases "cutoff10 \<le> n")
  case True
  then show ?thesis unfolding ParseUint_loop_digit [OF assms(1) refl] by simp
next
  case False
  define d :: nat where "d = of_char c - 48"
  have d: "d \<le> 9" unfolding d_def using assms(1) by (rule digit_le_9)
  have big: "M < 10 * n + d" using assms(2) by (simp add: d_def)
  from False have nlt: "n * 10 \<le> 18446744073709551615" by (simp add: cutoff10_val)
  have n10: "to_uint64 (n * 10) = n * 10" using nlt by (rule to_uint64_id)
  have bad: "to_uint64 (n * 10 + d) < n * 10 \<or> M < to_uint64 (n * 10 + d)"
  proof (cases "n * 10 + d \<le> 18446744073709551615")
    case True
    then have "to_uint64 (n * 10 + d) = n * 10 + d" by (rule to_uint64_id)
    then show ?thesis using big by simp
  next
    case False
    then have "to_uint64 (n * 10 + d) = n * 10 + d - 18446744073709551616"
      using nlt d by (intro to_uint64_wrap) simp_all
    moreover have "n * 10 + d - 18446744073709551616 < n * 10" using False d by arith
    ultimately show ?thesis by simp
  qed
  show ?thesis unfolding ParseUint_loop_digit [OF assms(1) d_def] using False bad by (simp add: n10)
qed

lemma ParseUint_loop_digits:
  "list_all isDigit cs \<Longrightarrow> decimal_from n cs \<le> M \<Longrightarrow> M \<le> maxUint64 \<Longrightarrow>
   ParseUint_loop M n cs = (decimal_from n cs, None)"
proof (induction cs arbitrary: n)
  case Nil
  show ?case by simp
next
  case (Cons c cs)
  let ?n = "10 * n + (of_char c - 48)"
  from Cons.prems have dig: "isDigit c" and rest: "list_all isDigit cs"
    and bound: "decimal_from ?n cs \<le> M" by simp_all
  have "?n \<le> M" using decimal_from_ge [of ?n cs] bound by simp
  then have "ParseUint_loop M n (c # cs) = ParseUint_loop M ?n cs"
    using dig Cons.prems(3) by (intro ParseUint_loop_step)
  also have "\<dots> = (decimal_from ?n cs, None)" using rest bound Cons.prems(3) by (rule Cons.IH)
  finally show ?case by simp
qed

lemma ParseUint_loop_range:
  "list_all isDigit cs \<Longrightarrow> M < decimal_from n cs \<Longrightarrow> M \<le> maxUint64 \<Longrightarrow> n \<le> M \<Longrightarrow>
   ParseUint_loop M n cs = (M, Some ErrRange)"
proof (induction cs arbitrary: n)
  case Nil
  then show ?case by simp
next
  case (Cons c cs)
  let ?n = "10 * n + (of_char c - 48)"
  from Cons.prems have dig: "isDigit c" and rest: "list_all isDigit cs"
    and bound: "M < decimal_from ?n cs" by simp_all
  show ?case
  proof (cases "?n \<le> M")
    case True
    then have "ParseUint_loop M n (c # cs) = ParseUint_loop M ?n cs"
      using dig Cons.prems(3) by (intro ParseUint_loop_step)
    also have "\<dots> = (M, Some ErrRange)" using rest bound Cons.prems(3) True by (rule Cons.IH)
    finally show ?thesis .
  next
    case False
    then show ?thesis using dig Cons.prems(3) by (intro ParseUint_loop_over) simp_all
  qed
qed

lemma ParseUint_loop_reject:
  "\<not> list_all isDigit cs \<Longrightarrow> M \<le> maxUint64 \<Longrightarrow>
   ParseUint_loop M n cs = (0, Some ErrSyntax) \<or> ParseUint_loop M n cs = (M, Some ErrRange)"
proof (induction cs arbitrary: n)
  case Nil
  then show ?case by simp
next
  case (Cons c cs)
  let ?n = "10 * n + (of_char c - 48)"
  show ?case
  proof (cases "isDigit c")
    case False
    then show ?thesis by (intro disjI1 ParseUint_loop_nondigit)
  next
    case dig: True
    with Cons.prems have rest: "\<not> list_all isDigit cs" by simp
    show ?thesis
    proof (cases "?n \<le> M")
      case True
      then have "ParseUint_loop M n (c # cs) = ParseUint_loop M ?n cs"
        using dig Cons.prems(2) by (intro ParseUint_loop_step)
      then show ?thesis using Cons.IH [OF rest Cons.prems(2), of ?n] by (simp only:)
    next
      case False
      then have "ParseUint_loop M n (c # cs) = (M, Some ErrRange)"
        using dig Cons.prems(2) by (intro ParseUint_loop_over) simp_all
      then show ?thesis by (simp only: simp_thms)
    qed
  qed
qed


section \<open>ParseUint, ParseInt and Atoi against the specification's integers\<close>

lemma maxVal_val: "maxVal Int32 = 4294967295" "maxVal Int64 = 18446744073709551615"
  by (simp_all add: maxVal_def to_uint64_def)

lemma maxVal_le: "maxVal a \<le> maxUint64"
  by (cases a) (simp_all add: maxVal_val maxUint64_val)

lemma ParseUint_digits:
  assumes "ds \<noteq> []" and "list_all isDigit ds"
  shows "ParseUint a ds =
    (if decimal_from 0 ds \<le> maxVal a then (decimal_from 0 ds, None) else (maxVal a, Some ErrRange))"
proof (cases "decimal_from 0 ds \<le> maxVal a")
  case True
  then have "ParseUint_loop (maxVal a) 0 ds = (decimal_from 0 ds, None)"
    using assms(2) maxVal_le by (intro ParseUint_loop_digits)
  then show ?thesis using assms(1) True by (simp add: ParseUint_def)
next
  case False
  then have "ParseUint_loop (maxVal a) 0 ds = (maxVal a, Some ErrRange)"
    using assms(2) maxVal_le by (intro ParseUint_loop_range) simp_all
  then show ?thesis using assms(1) False by (simp add: ParseUint_def)
qed

lemma ParseUint_reject:
  assumes "ds = [] \<or> \<not> list_all isDigit ds"
  shows "ParseUint a ds = (0, Some ErrSyntax) \<or> ParseUint a ds = (maxVal a, Some ErrRange)"
proof (cases "ds = []")
  case True
  then show ?thesis by (simp add: ParseUint_def)
next
  case False
  with assms have "\<not> list_all isDigit ds" by simp
  then show ?thesis
    using ParseUint_loop_reject [OF _ maxVal_le, of ds a 0] False by (simp add: ParseUint_def)
qed

lemma ParseInt_Cons:
  assumes "ParseUint a (if c = CHR ''+'' \<or> c = CHR ''-'' then cs else c # cs) = (un, err)"
  shows "ParseInt a (c # cs) =
    (if err \<noteq> None \<and> err \<noteq> Some ErrRange then (0, err)
     else if c \<noteq> CHR ''-'' \<and> un \<ge> 2 ^ (intSize a - 1)
          then (to_int64 (int (2 ^ (intSize a - 1) - 1)), Some ErrRange)
     else if c = CHR ''-'' \<and> un > 2 ^ (intSize a - 1)
          then (to_int64 (- to_int64 (int (2 ^ (intSize a - 1)))), Some ErrRange)
     else (if c = CHR ''-'' then to_int64 (- to_int64 (int un)) else to_int64 (int un), None))"
  using assms
  by (cases "c = CHR ''-''"; cases "c = CHR ''+''") (simp_all add: ParseInt_def Let_def)

lemma to_int64_neg:
  assumes "u \<le> 9223372036854775808"
  shows "to_int64 (- to_int64 (int u)) = - int u"
proof (cases "u = 9223372036854775808")
  case True
  then show ?thesis by (simp add: to_int64_def wrap_signed_def)
next
  case False
  with assms have "int u \<le> 9223372036854775807" by simp
  then have "to_int64 (int u) = int u" by (intro to_int64_id) simp_all
  moreover have "to_int64 (- int u) = - int u" using assms by (intro to_int64_id) simp_all
  ultimately show ?thesis by simp
qed

lemma signed_decimal_Cons:
  "signed_decimal (c # cs) =
    (if (if c = CHR ''+'' \<or> c = CHR ''-'' then cs else c # cs) = [] \<or>
        \<not> list_all isDigit (if c = CHR ''+'' \<or> c = CHR ''-'' then cs else c # cs)
     then None
     else Some (if c = CHR ''-''
                then - int (decimal_from 0 (if c = CHR ''+'' \<or> c = CHR ''-'' then cs else c # cs))
                else int (decimal_from 0 (if c = CHR ''+'' \<or> c = CHR ''-'' then cs else c # cs))))"
  by (simp add: signed_decimal_def Let_def)

lemma ParseInt_of_range:
  assumes "ParseUint a (if c = CHR ''+'' \<or> c = CHR ''-'' then cs else c # cs)
    = (maxVal a, Some ErrRange)"
  shows "snd (ParseInt a (c # cs)) = Some ErrRange"
  unfolding ParseInt_Cons [OF assms] by (cases a) (simp_all add: maxVal_val)

lemma ParseInt_of_syntax:
  assumes "ParseUint a (if c = CHR ''+'' \<or> c = CHR ''-'' then cs else c # cs)
    = (0, Some ErrSyntax)"
  shows "snd (ParseInt a (c # cs)) = Some ErrSyntax"
  unfolding ParseInt_Cons [OF assms] by simp

lemma ParseInt_reject: "signed_decimal s = None \<Longrightarrow> snd (ParseInt a s) \<noteq> None"
proof (cases s)
  case Nil
  then show ?thesis by (simp add: ParseInt_def)
next
  case (Cons c cs)
  assume "signed_decimal s = None"
  let ?ds = "if c = CHR ''+'' \<or> c = CHR ''-'' then cs else c # cs"
  define ds where "ds = ?ds"
  have "signed_decimal (c # cs) =
    (if ds = [] \<or> \<not> list_all isDigit ds then None
     else Some (if c = CHR ''-'' then - int (decimal_from 0 ds) else int (decimal_from 0 ds)))"
    unfolding ds_def by (rule signed_decimal_Cons)
  with \<open>signed_decimal s = None\<close> Cons have "ds = [] \<or> \<not> list_all isDigit ds"
    by (simp split: if_splits)
  then have "?ds = [] \<or> \<not> list_all isDigit ?ds" by (simp only: ds_def)
  then have "ParseUint a ?ds = (0, Some ErrSyntax) \<or> ParseUint a ?ds = (maxVal a, Some ErrRange)"
    by (rule ParseUint_reject)
  then show ?thesis
  proof
    assume "ParseUint a ?ds = (0, Some ErrSyntax)"
    then have "snd (ParseInt a (c # cs)) = Some ErrSyntax" by (rule ParseInt_of_syntax)
    then show ?thesis using Cons by simp
  next
    assume "ParseUint a ?ds = (maxVal a, Some ErrRange)"
    then have "snd (ParseInt a (c # cs)) = Some ErrRange" by (rule ParseInt_of_range)
    then show ?thesis using Cons by simp
  qed
qed

lemma signed_decimal_SomeD:
  assumes "signed_decimal s = Some v"
  obtains c cs ds where "s = c # cs"
    and "ds = (if c = CHR ''+'' \<or> c = CHR ''-'' then cs else c # cs)"
    and "ds \<noteq> []" and "list_all isDigit ds"
    and "v = (if c = CHR ''-'' then - int (decimal_from 0 ds) else int (decimal_from 0 ds))"
proof (cases s)
  case Nil
  with assms show ?thesis by (simp add: signed_decimal_def)
next
  case (Cons c cs)
  let ?ds = "if c = CHR ''+'' \<or> c = CHR ''-'' then cs else c # cs"
  define ds where "ds = ?ds"
  have "signed_decimal (c # cs) =
    (if ds = [] \<or> \<not> list_all isDigit ds then None
     else Some (if c = CHR ''-'' then - int (decimal_from 0 ds) else int (decimal_from 0 ds)))"
    unfolding ds_def by (rule signed_decimal_Cons)
  with assms Cons have "ds \<noteq> []" "list_all isDigit ds"
    "v = (if c = CHR ''-'' then - int (decimal_from 0 ds) else int (decimal_from 0 ds))"
    by (simp_all split: if_splits)
  with Cons ds_def that show ?thesis by blast
qed

lemma ParseInt_range:
  assumes "signed_decimal s = Some v" and "\<not> (minInt a \<le> v \<and> v \<le> maxInt a)"
  shows "snd (ParseInt a s) = Some ErrRange"
proof -
  from assms(1) obtain c cs ds where s: "s = c # cs"
    and ds: "ds = (if c = CHR ''+'' \<or> c = CHR ''-'' then cs else c # cs)"
    and ne: "ds \<noteq> []" and dig: "list_all isDigit ds"
    and v: "v = (if c = CHR ''-'' then - int (decimal_from 0 ds) else int (decimal_from 0 ds))"
    by (rule signed_decimal_SomeD)
  define u where "u = decimal_from 0 ds"
  have pu: "ParseUint a ds = (if u \<le> maxVal a then (u, None) else (maxVal a, Some ErrRange))"
    unfolding u_def using ne dig by (rule ParseUint_digits)
  show ?thesis
  proof (cases "u \<le> maxVal a")
    case False
    with pu have "ParseUint a ds = (maxVal a, Some ErrRange)" by simp
    then show ?thesis unfolding s ds by (rule ParseInt_of_range)
  next
    case True
    with pu have "ParseUint a ds = (u, None)" by simp
    then have pi: "ParseUint a (if c = CHR ''+'' \<or> c = CHR ''-'' then cs else c # cs) = (u, None)"
      by (simp only: ds)
    have v': "v = (if c = CHR ''-'' then - int u else int u)" using v by (simp add: u_def)
    show ?thesis
      unfolding s ParseInt_Cons [OF pi] using assms(2) v'
      by (cases a) (auto simp: minInt_def maxInt_def split: if_splits)
  qed
qed

lemma ParseInt_ok:
  assumes "signed_decimal s = Some v" and "minInt a \<le> v" and "v \<le> maxInt a"
  shows "ParseInt a s = (v, None)"
proof -
  from assms(1) obtain c cs ds where s: "s = c # cs"
    and ds: "ds = (if c = CHR ''+'' \<or> c = CHR ''-'' then cs else c # cs)"
    and ne: "ds \<noteq> []" and dig: "list_all isDigit ds"
    and v: "v = (if c = CHR ''-'' then - int (decimal_from 0 ds) else int (decimal_from 0 ds))"
    by (rule signed_decimal_SomeD)
  define u where "u = decimal_from 0 ds"
  have v': "v = (if c = CHR ''-'' then - int u else int u)" using v by (simp add: u_def)
  have u64: "u \<le> 9223372036854775808"
    using assms(2,3) v' by (cases a) (auto simp: minInt_def maxInt_def split: if_splits)
  have umax: "u \<le> maxVal a"
    using assms(2,3) v' by (cases a) (auto simp: minInt_def maxInt_def maxVal_val split: if_splits)
  have "ParseUint a ds = (u, None)"
    using ParseUint_digits [OF ne dig, of a] umax by (simp add: u_def)
  then have pi: "ParseUint a (if c = CHR ''+'' \<or> c = CHR ''-'' then cs else c # cs) = (u, None)"
    by (simp only: ds)
  show ?thesis
  proof (cases "c = CHR ''-''")
    case True
    then have "\<not> 2 ^ (intSize a - 1) < u"
      using assms(2) v' by (cases a) (auto simp: minInt_def)
    then show ?thesis
      unfolding s ParseInt_Cons [OF pi] using True v' by (simp add: to_int64_neg [OF u64])
  next
    case False
    then have small: "\<not> 2 ^ (intSize a - 1) \<le> u"
      using assms(3) v' by (cases a) (auto simp: maxInt_def)
    then have "int u \<le> 9223372036854775807" by (cases a) auto
    then have "to_int64 (int u) = int u" by (intro to_int64_id) simp_all
    then show ?thesis
      unfolding s ParseInt_Cons [OF pi] using False v' small by simp
  qed
qed

lemma Atoi_slow:
  assumes "\<not> ((intSize a = 32 \<and> 0 < length s \<and> length s < 10) \<or>
              (intSize a = 64 \<and> 0 < length s \<and> length s < 19))"
  shows "Atoi a s = (to_int a (fst (ParseInt a s)), snd (ParseInt a s))"
proof -
  have "Atoi a s = (case ParseInt a s of (i64, err) \<Rightarrow> (to_int a i64, err))"
    unfolding Atoi_def Let_def using assms by (simp only: if_False)
  then show ?thesis by (simp add: case_prod_beta)
qed

lemma Atoi_fast:
  assumes "(intSize a = 32 \<and> length (c # cs) < 10) \<or> (intSize a = 64 \<and> length (c # cs) < 19)"
    and "ds = (if c = CHR ''+'' \<or> c = CHR ''-'' then cs else c # cs)"
  shows "Atoi a (c # cs) =
    (if ds = [] then (0, Some ErrSyntax)
     else case Atoi_loop a 0 ds of
            (n, Some e) \<Rightarrow> (0, Some e)
          | (n, None) \<Rightarrow> (if c = CHR ''-'' then to_int a (- n) else n, None))"
proof -
  have "(intSize a = 32 \<and> 0 < length (c # cs) \<and> length (c # cs) < 10) \<or>
        (intSize a = 64 \<and> 0 < length (c # cs) \<and> length (c # cs) < 19)"
    using assms(1) by simp
  then show ?thesis
    unfolding assms(2)
    by (cases "c = CHR ''-''"; cases "c = CHR ''+''") (simp_all add: Atoi_def Let_def)
qed

lemma fast_bound:
  assumes "(intSize a = 32 \<and> length ds < 10) \<or> (intSize a = 64 \<and> length ds < 19)"
    and "list_all isDigit ds"
  shows "int (decimal_from 0 ds) \<le> maxInt a"
proof -
  have lt: "decimal_from 0 ds < 10 ^ length ds" using assms(2) by (rule decimal_from_0_lt)
  show ?thesis
  proof (cases a)
    case Int32
    with assms(1) have "length ds \<le> 9" by simp
    then have "(10::nat) ^ length ds \<le> 10 ^ 9" by (intro power_increasing) simp_all
    with lt have "decimal_from 0 ds < 10 ^ 9" by simp
    then show ?thesis using Int32 by (simp add: maxInt_def)
  next
    case Int64
    with assms(1) have "length ds \<le> 18" by simp
    then have "(10::nat) ^ length ds \<le> 10 ^ 18" by (intro power_increasing) simp_all
    with lt have "decimal_from 0 ds < 10 ^ 18" by simp
    then show ?thesis using Int64 by (simp add: maxInt_def)
  qed
qed

lemma Atoi_fast_result:
  assumes fast: "(intSize a = 32 \<and> length (c # cs) < 10) \<or> (intSize a = 64 \<and> length (c # cs) < 19)"
  shows "Atoi a (c # cs) =
    (case signed_decimal (c # cs) of None \<Rightarrow> (0, Some ErrSyntax) | Some v \<Rightarrow> (v, None))"
    and "signed_decimal (c # cs) = Some v \<Longrightarrow> minInt a \<le> v \<and> v \<le> maxInt a"
proof -
  define ds where "ds = (if c = CHR ''+'' \<or> c = CHR ''-'' then cs else c # cs)"
  have sd: "signed_decimal (c # cs) =
    (if ds = [] \<or> \<not> list_all isDigit ds then None
     else Some (if c = CHR ''-'' then - int (decimal_from 0 ds) else int (decimal_from 0 ds)))"
    unfolding ds_def by (rule signed_decimal_Cons)
  note at = Atoi_fast [OF fast ds_def]
  have len: "(intSize a = 32 \<and> length ds < 10) \<or> (intSize a = 64 \<and> length ds < 19)"
    using fast by (auto simp: ds_def)
  have rng: "minInt a \<le> (if c = CHR ''-'' then - int (decimal_from 0 ds) else int (decimal_from 0 ds))
      \<and> (if c = CHR ''-'' then - int (decimal_from 0 ds) else int (decimal_from 0 ds)) \<le> maxInt a"
    if "list_all isDigit ds"
  proof -
    have "int (decimal_from 0 ds) \<le> maxInt a" using len that by (rule fast_bound)
    then show ?thesis by (cases a) (auto simp: minInt_def maxInt_def)
  qed
  show "Atoi a (c # cs) =
    (case signed_decimal (c # cs) of None \<Rightarrow> (0, Some ErrSyntax) | Some v \<Rightarrow> (v, None))"
  proof (cases "ds = []")
    case True
    then show ?thesis by (simp add: at sd)
  next
    case ne: False
    show ?thesis
    proof (cases "list_all isDigit ds")
      case False
      then have "Atoi_loop a 0 ds = (0, Some ErrSyntax)" by (rule Atoi_loop_syntax)
      then show ?thesis using ne False by (simp add: at sd)
    next
      case True
      have b: "int (decimal_from 0 ds) \<le> maxInt a" using len True by (rule fast_bound)
      have "Atoi_loop a (int 0) ds = (int (decimal_from 0 ds), None)"
        using True b by (rule Atoi_loop_digits)
      then have loop: "Atoi_loop a 0 ds = (int (decimal_from 0 ds), None)" by simp
      have "to_int a (- int (decimal_from 0 ds)) = - int (decimal_from 0 ds)"
      proof (rule to_int_id)
        show "minInt a \<le> - int (decimal_from 0 ds)"
          using b by (cases a) (simp_all add: minInt_def maxInt_def)
        show "- int (decimal_from 0 ds) \<le> maxInt a"
          using b by (cases a) (simp_all add: maxInt_def)
      qed
      then show ?thesis using ne True by (simp add: at sd loop)
    qed
  qed
  show "minInt a \<le> v \<and> v \<le> maxInt a" if "signed_decimal (c # cs) = Some v"
    using that rng unfolding sd by (auto split: if_splits)
qed

lemma Atoi_ok:
  assumes "signed_decimal s = Some v" and "minInt a \<le> v" and "v \<le> maxInt a"
  shows "Atoi a s = (v, None)"
proof (cases "(intSize a = 32 \<and> 0 < length s \<and> length s < 10) \<or>
              (intSize a = 64 \<and> 0 < length s \<and> length s < 19)")
  case True
  then obtain c cs where s: "s = c # cs" by (cases s) auto
  with True have "(intSize a = 32 \<and> length (c # cs) < 10) \<or> (intSize a = 64 \<and> length (c # cs) < 19)"
    by simp
  then show ?thesis using assms(1) unfolding s by (simp add: Atoi_fast_result(1))
next
  case False
  have "ParseInt a s = (v, None)" using assms by (rule ParseInt_ok)
  then show ?thesis using to_int_id [OF assms(2,3)] by (simp add: Atoi_slow [OF False])
qed

lemma Atoi_range:
  assumes "signed_decimal s = Some v" and "\<not> (minInt a \<le> v \<and> v \<le> maxInt a)"
  shows "snd (Atoi a s) = Some ErrRange"
proof (cases "(intSize a = 32 \<and> 0 < length s \<and> length s < 10) \<or>
              (intSize a = 64 \<and> 0 < length s \<and> length s < 19)")
  case True
  then obtain c cs where s: "s = c # cs" by (cases s) auto
  with True have "(intSize a = 32 \<and> length (c # cs) < 10) \<or> (intSize a = 64 \<and> length (c # cs) < 19)"
    by simp
  from Atoi_fast_result(2) [OF this] assms show ?thesis unfolding s by blast
next
  case False
  have "snd (ParseInt a s) = Some ErrRange" using assms by (rule ParseInt_range)
  then show ?thesis by (simp add: Atoi_slow [OF False])
qed

lemma Atoi_reject:
  assumes "signed_decimal s = None"
  shows "snd (Atoi a s) \<noteq> None"
proof (cases "(intSize a = 32 \<and> 0 < length s \<and> length s < 10) \<or>
              (intSize a = 64 \<and> 0 < length s \<and> length s < 19)")
  case True
  then obtain c cs where s: "s = c # cs" by (cases s) auto
  with True have "(intSize a = 32 \<and> length (c # cs) < 10) \<or> (intSize a = 64 \<and> length (c # cs) < 19)"
    by simp
  then show ?thesis using assms unfolding s by (simp add: Atoi_fast_result(1))
next
  case False
  have "snd (ParseInt a s) \<noteq> None" using assms by (rule ParseInt_reject)
  then show ?thesis by (simp add: Atoi_slow [OF False])
qed

text \<open>
  The parser against the specification's integers: \<open>Atoi\<close> returns \<open>v\<close> without an error
  exactly for an optional sign followed by decimal digits whose value \<open>v\<close> fits \<open>int\<close>.
\<close>

lemma Atoi_iff:
  "Atoi a s = (v, None) \<longleftrightarrow> signed_decimal s = Some v \<and> minInt a \<le> v \<and> v \<le> maxInt a"
proof
  assume ok: "Atoi a s = (v, None)"
  show "signed_decimal s = Some v \<and> minInt a \<le> v \<and> v \<le> maxInt a"
  proof (cases "signed_decimal s")
    case None
    then have "snd (Atoi a s) \<noteq> None" by (rule Atoi_reject)
    with ok show ?thesis by simp
  next
    case (Some w)
    show ?thesis
    proof (cases "minInt a \<le> w \<and> w \<le> maxInt a")
      case True
      then have "Atoi a s = (w, None)" using Some by (intro Atoi_ok) simp_all
      with ok Some True show ?thesis by simp
    next
      case False
      with Some have "snd (Atoi a s) = Some ErrRange" by (rule Atoi_range)
      with ok show ?thesis by simp
    qed
  qed
next
  assume "signed_decimal s = Some v \<and> minInt a \<le> v \<and> v \<le> maxInt a"
  then show "Atoi a s = (v, None)" by (intro Atoi_ok) simp_all
qed

lemma Atoi_error_iff:
  "snd (Atoi a s) \<noteq> None \<longleftrightarrow>
   \<not> (\<exists>v. signed_decimal s = Some v \<and> minInt a \<le> v \<and> v \<le> maxInt a)"
proof -
  have "snd (Atoi a s) = None \<longleftrightarrow> (\<exists>v. Atoi a s = (v, None))"
    by (cases "Atoi a s") auto
  then show ?thesis by (simp add: Atoi_iff)
qed


section \<open>Sorting\<close>

lemma mset_insert_by: "mset (insert_by lt x xs) = add_mset x (mset xs)"
  by (induction xs) simp_all

lemma mset_insertionSort_loop: "mset (insertionSort_loop lt acc xs) = mset acc + mset xs"
  by (induction xs arbitrary: acc) (simp_all add: mset_insert_by)

lemma mset_insertionSort: "mset (insertionSort lt xs) = mset xs"
  by (simp add: insertionSort_def mset_insertionSort_loop)

lemma set_insert_by: "set (insert_by lt x xs) = insert x (set xs)"
  using mset_insert_by [of lt x xs, THEN arg_cong, of set_mset] by simp

lemma sorted_insert_by:
  assumes "strict_weak_order lt" and "sorted_wrt (\<lambda>x y. \<not> lt y x) xs"
  shows "sorted_wrt (\<lambda>x y. \<not> lt y x) (insert_by lt x xs)"
  using assms(2)
proof (induction xs)
  case Nil
  show ?case by simp
next
  case (Cons y ys)
  from assms(1) have irrefl: "\<And>u. \<not> lt u u"
    and trans: "\<And>u v w. lt u v \<Longrightarrow> lt v w \<Longrightarrow> lt u w"
    by (auto simp: strict_weak_order_def)
  show ?case
  proof (cases "lt x y")
    case True
    have "\<not> lt y x" using True irrefl trans by blast
    moreover have "\<not> lt z x" if "z \<in> set ys" for z
    proof
      assume "lt z x"
      then have "lt z y" using True by (rule trans)
      with Cons.prems that show False by simp
    qed
    ultimately show ?thesis using True Cons.prems by simp
  next
    case False
    from Cons.prems have "sorted_wrt (\<lambda>x y. \<not> lt y x) ys" by simp
    then have "sorted_wrt (\<lambda>x y. \<not> lt y x) (insert_by lt x ys)" by (rule Cons.IH)
    then show ?thesis using False Cons.prems by (auto simp: set_insert_by)
  qed
qed

lemma sorted_insertionSort_loop:
  "strict_weak_order lt \<Longrightarrow> sorted_wrt (\<lambda>x y. \<not> lt y x) acc \<Longrightarrow>
   sorted_wrt (\<lambda>x y. \<not> lt y x) (insertionSort_loop lt acc xs)"
  by (induction xs arbitrary: acc) (simp_all add: sorted_insert_by)

lemma sorted_insertionSort:
  "strict_weak_order lt \<Longrightarrow> sorted_wrt (\<lambda>x y. \<not> lt y x) (insertionSort lt xs)"
  by (simp add: insertionSort_def sorted_insertionSort_loop)

lemma insertionSort_ok: "sort_Slice_ok insertionSort"
  by (simp add: sort_Slice_ok_def mset_insertionSort sorted_insertionSort)

lemma Rev_greater_strict_weak_order: "strict_weak_order (\<lambda>x y :: DataIndex. Rev x > Rev y)"
  by (auto simp: strict_weak_order_def)

lemma sort_Slice_mset: "sort_Slice_ok srt \<Longrightarrow> mset (srt lt xs) = mset xs"
  by (simp add: sort_Slice_ok_def)

lemma sort_Slice_set: "sort_Slice_ok srt \<Longrightarrow> set (srt lt xs) = set xs"
  using sort_Slice_mset [of srt lt xs, THEN arg_cong, of set_mset] by simp

lemma sort_Slice_length: "sort_Slice_ok srt \<Longrightarrow> length (srt lt xs) = length xs"
  using sort_Slice_mset [of srt lt xs, THEN arg_cong, of size] by simp

lemma sort_Slice_Nil: "sort_Slice_ok srt \<Longrightarrow> srt lt [] = []"
  using sort_Slice_length [of srt lt "[]"] by simp

lemma sort_Slice_Rev_sorted:
  "sort_Slice_ok srt \<Longrightarrow> sorted_wrt (\<lambda>x y. Rev x \<ge> Rev y) (srt (\<lambda>x y :: DataIndex. Rev x > Rev y) xs)"
proof -
  assume "sort_Slice_ok srt"
  then have "sorted_wrt (\<lambda>x y. \<not> Rev y > Rev x) (srt (\<lambda>x y :: DataIndex. Rev x > Rev y) xs)"
    using Rev_greater_strict_weak_order by (simp add: sort_Slice_ok_def)
  then show ?thesis by (simp add: not_less)
qed


section \<open>The Revision Resolver\<close>

lemma Indices_loop_append:
  "Indices_loop a res indices = indices @ Indices_loop a res []"
proof (induction res arbitrary: indices)
  case Nil
  show ?case by simp
next
  case (Cons item res)
  show ?case
    using Cons.IH [of "indices @ [\<lparr>Index = item, Rev = fst (Atoi a (TrimPrefix item indexPrefix))\<rparr>]"]
      Cons.IH [of "[\<lparr>Index = item, Rev = fst (Atoi a (TrimPrefix item indexPrefix))\<rparr>]"]
      Cons.IH [of indices]
    by (auto split: prod.splits option.splits)
qed

lemma Indices_loop_Cons:
  "Indices_loop a (item # res) [] =
    (if HasPrefix item indexPrefix \<and> snd (Atoi a (TrimPrefix item indexPrefix)) = None
     then \<lparr>Index = item, Rev = fst (Atoi a (TrimPrefix item indexPrefix))\<rparr> # Indices_loop a res []
     else Indices_loop a res [])"
  using Indices_loop_append [of a res "[\<lparr>Index = item, Rev = fst (Atoi a (TrimPrefix item indexPrefix))\<rparr>]"]
  by (auto split: prod.splits option.splits)

lemma set_Indices_loop:
  "set (Indices_loop a res []) =
    {\<lparr>Index = item, Rev = fst (Atoi a (TrimPrefix item indexPrefix))\<rparr> | item.
       item \<in> set res \<and> HasPrefix item indexPrefix \<and> snd (Atoi a (TrimPrefix item indexPrefix)) = None}"
proof (induction res)
  case Nil
  show ?case by simp
next
  case (Cons item res)
  show ?case unfolding Indices_loop_Cons using Cons.IH by auto
qed

lemma Indices_loop_empty_iff:
  "Indices_loop a res [] = [] \<longleftrightarrow>
    (\<forall>item \<in> set res. \<not> (HasPrefix item indexPrefix \<and> snd (Atoi a (TrimPrefix item indexPrefix)) = None))"
  using set_Indices_loop [of a res] by (auto simp flip: set_empty)

lemma resolve_eq:
  assumes "sort_Slice_ok srt"
  shows "resolve srt a res =
    (if Indices_loop a res [] = [] then [\<lparr>Index = indexPrefix @ ''1'', Rev = 1\<rparr>]
     else srt (\<lambda>x y. Rev x > Rev y) (Indices_loop a res []))"
proof -
  have "length (srt (\<lambda>x y. Rev x > Rev y) (Indices_loop a res [])) = 0 \<longleftrightarrow> Indices_loop a res [] = []"
    using sort_Slice_length [OF assms] by simp
  then show ?thesis using sort_Slice_Nil [OF assms] by (simp add: resolve_def Let_def)
qed

lemma Atoi_accepts_iff:
  "snd (Atoi a s) = None \<longleftrightarrow>
   (\<exists>N. signed_decimal s = Some N \<and> minInt a \<le> N \<and> N \<le> maxInt a)"
  using Atoi_error_iff [of a s] by blast

lemma Atoi_accepts_value: "snd (Atoi a s) = None \<Longrightarrow> signed_decimal s = Some (fst (Atoi a s))"
  using Atoi_iff [of a s "fst (Atoi a s)"] by (cases "Atoi a s") simp

lemma fallback_matches:
  "HasPrefix (indexPrefix @ ''1'') indexPrefix \<and>
   snd (Atoi a (TrimPrefix (indexPrefix @ ''1'') indexPrefix)) = None"
  by (cases a)
    (simp_all add: HasPrefix_def TrimPrefix_def indexPrefix_def Atoi_def to_int_def
      wrap_signed_def sub_byte_def insertionSort_def)

lemma set_resolve:
  assumes "sort_Slice_ok srt"
  shows "set (resolve srt a names) =
    (if Indices_loop a names [] = [] then {\<lparr>Index = indexPrefix @ ''1'', Rev = 1\<rparr>}
     else set (Indices_loop a names []))"
  by (simp add: resolve_eq [OF assms] sort_Slice_set [OF assms])

lemma sorted_descending_keys:
  fixes f :: "'a \<Rightarrow> int"
  assumes "sorted_wrt (\<lambda>x y. f x \<ge> f y) xs" and "mset xs = mset ys"
  shows "map f xs = rev (sort (map f ys))"
proof -
  have "sorted_wrt (\<lambda>x y. x \<ge> y) (map f xs)" using assms(1) by (simp add: sorted_wrt_map)
  then have "sorted_wrt (\<lambda>x y. y \<ge> x) (rev (map f xs))" by (simp add: sorted_wrt_rev)
  then have "sorted (rev (map f xs))" by (simp add: sorted_wrt_rev)
  moreover have "mset (rev (map f xs)) = mset (map f ys)"
    using assms(2) by (metis mset_map mset_rev)
  ultimately have "sort (map f ys) = rev (map f xs)" by (intro properties_for_sort)
  then show ?thesis by simp
qed

lemma Indices_loop_signed:
  "Indices_loop a [''kb-rev3'', ''kb-rev+3'', ''kb-rev03'', ''kb-rev-3''] [] =
    [\<lparr>Index = ''kb-rev3'', Rev = 3\<rparr>, \<lparr>Index = ''kb-rev+3'', Rev = 3\<rparr>,
     \<lparr>Index = ''kb-rev03'', Rev = 3\<rparr>, \<lparr>Index = ''kb-rev-3'', Rev = - 3\<rparr>]"
  by (cases a)
    (simp_all add: HasPrefix_def TrimPrefix_def indexPrefix_def Atoi_def to_int_def
      wrap_signed_def sub_byte_def insertionSort_def)


section \<open>The claims about the Revision Resolver\<close>

text \<open>
  Claim C1, as amended. For every list of index names and every name in it, the output of
  the resolver has an entry for that name if and only if the name starts with the prefix
  and its remainder is a base-10 signed integer \<open>N\<close> (an optional sign, then one or more
  decimal digits) that lies in the range of Go's \<open>int\<close>; such an entry has \<open>Index\<close> equal
  to the name and \<open>Rev\<close> equal to \<open>N\<close>. The resolver is a total function into lists: a
  name that does not parse is left out and nothing fails.
\<close>

theorem resolve_entry_iff:
  assumes ok: "sort_Slice_ok sort_Slice" and mem: "name \<in> set names"
  shows "((\<exists>e \<in> set (resolve sort_Slice a names). Index e = name) \<longleftrightarrow>
            HasPrefix name indexPrefix \<and>
            (\<exists>N. signed_decimal (TrimPrefix name indexPrefix) = Some N \<and>
                 minInt a \<le> N \<and> N \<le> maxInt a)) \<and>
         (\<forall>e \<in> set (resolve sort_Slice a names).
            Index e = name \<longrightarrow> signed_decimal (TrimPrefix name indexPrefix) = Some (Rev e))"
proof (cases "Indices_loop a names [] = []")
  case True
  then have none: "\<not> (HasPrefix name indexPrefix \<and> snd (Atoi a (TrimPrefix name indexPrefix)) = None)"
    using mem by (simp add: Indices_loop_empty_iff)
  then have ne: "name \<noteq> indexPrefix @ ''1''" using fallback_matches [of a] by auto
  have set: "set (resolve sort_Slice a names) = {\<lparr>Index = indexPrefix @ ''1'', Rev = 1\<rparr>}"
    using True by (simp add: set_resolve [OF ok])
  show ?thesis using none ne unfolding set Atoi_accepts_iff [symmetric] by auto
next
  case False
  have set: "set (resolve sort_Slice a names) =
    {\<lparr>Index = item, Rev = fst (Atoi a (TrimPrefix item indexPrefix))\<rparr> | item.
       item \<in> set names \<and> HasPrefix item indexPrefix \<and>
       snd (Atoi a (TrimPrefix item indexPrefix)) = None}"
    using False by (simp add: set_resolve [OF ok] set_Indices_loop)
  have "(\<exists>e \<in> set (resolve sort_Slice a names). Index e = name) \<longleftrightarrow>
        HasPrefix name indexPrefix \<and> snd (Atoi a (TrimPrefix name indexPrefix)) = None"
    unfolding set using mem by auto
  moreover have "signed_decimal (TrimPrefix name indexPrefix) = Some (Rev e)"
    if "e \<in> set (resolve sort_Slice a names)" and "Index e = name" for e
  proof -
    from that obtain item where e: "e = \<lparr>Index = item, Rev = fst (Atoi a (TrimPrefix item indexPrefix))\<rparr>"
      and acc: "snd (Atoi a (TrimPrefix item indexPrefix)) = None"
      unfolding set by auto
    from e that(2) have "item = name" by simp
    with e acc show ?thesis by (simp add: Atoi_accepts_value)
  qed
  ultimately show ?thesis unfolding Atoi_accepts_iff [symmetric] by blast
qed

theorem resolve_entry_iff_witness:
  "sort_Slice_ok (insertionSort :: DataIndex sorter) \<and>
   ''kb-rev2'' \<in> set [''kb-rev3'', ''kb-rev1'', ''other-index'', ''kb-rev2''] \<and>
   (\<exists>e \<in> set (resolve insertionSort Int64 [''kb-rev3'', ''kb-rev1'', ''other-index'', ''kb-rev2'']).
      Index e = ''kb-rev2'') \<and>
   HasPrefix ''kb-rev2'' indexPrefix \<and>
   signed_decimal (TrimPrefix ''kb-rev2'' indexPrefix) = Some 2 \<and>
   resolve insertionSort Int64 [''kb-rev3'', ''kb-rev1'', ''other-index'', ''kb-rev2''] =
     [\<lparr>Index = ''kb-rev3'', Rev = 3\<rparr>, \<lparr>Index = ''kb-rev2'', Rev = 2\<rparr>,
      \<lparr>Index = ''kb-rev1'', Rev = 1\<rparr>]"
proof -
  have ok: "sort_Slice_ok (insertionSort :: DataIndex sorter)" by (rule insertionSort_ok)
  have mem: "''kb-rev2'' \<in> set [''kb-rev3'', ''kb-rev1'', ''other-index'', ''kb-rev2'']" by simp
  have pre: "HasPrefix ''kb-rev2'' indexPrefix"
    by (simp add: HasPrefix_def indexPrefix_def)
  have dec: "signed_decimal (TrimPrefix ''kb-rev2'' indexPrefix) = Some 2"
    by (simp add: signed_decimal_def isDigit_def HasPrefix_def TrimPrefix_def indexPrefix_def)
  have rng: "minInt Int64 \<le> 2 \<and> 2 \<le> maxInt Int64" by (simp add: minInt_def maxInt_def)
  have ex: "\<exists>e \<in> set (resolve insertionSort Int64 [''kb-rev3'', ''kb-rev1'', ''other-index'', ''kb-rev2'']).
      Index e = ''kb-rev2''"
    using resolve_entry_iff [OF ok mem, of Int64] pre dec rng by blast
  have val: "resolve insertionSort Int64 [''kb-rev3'', ''kb-rev1'', ''other-index'', ''kb-rev2''] =
     [\<lparr>Index = ''kb-rev3'', Rev = 3\<rparr>, \<lparr>Index = ''kb-rev2'', Rev = 2\<rparr>,
      \<lparr>Index = ''kb-rev1'', Rev = 1\<rparr>]"
    by (simp add: resolve_def HasPrefix_def TrimPrefix_def indexPrefix_def Atoi_def to_int_def
        wrap_signed_def sub_byte_def insertionSort_def)
  from ok mem ex pre dec val show ?thesis by (intro conjI)
qed

text \<open>
  Claim C1 as it is written fails: the remainder \<open>99999999999999999999\<close> is a base-10
  signed integer, yet \<open>Atoi\<close> reports a range error for it on both platforms and the name
  gets no entry; the resolver returns the synthetic entry alone.
\<close>

theorem resolve_entry_unbounded_counterexample:
  "HasPrefix ''kb-rev99999999999999999999'' indexPrefix \<and>
   signed_decimal (TrimPrefix ''kb-rev99999999999999999999'' indexPrefix)
     = Some 99999999999999999999 \<and>
   resolve insertionSort Int64 [''kb-rev99999999999999999999'']
     = [\<lparr>Index = ''kb-rev1'', Rev = 1\<rparr>] \<and>
   resolve insertionSort Int32 [''kb-rev99999999999999999999'']
     = [\<lparr>Index = ''kb-rev1'', Rev = 1\<rparr>]"
proof (intro conjI)
  show "HasPrefix ''kb-rev99999999999999999999'' indexPrefix"
    by (simp add: HasPrefix_def indexPrefix_def)
  show "signed_decimal (TrimPrefix ''kb-rev99999999999999999999'' indexPrefix)
     = Some 99999999999999999999"
    by (simp add: signed_decimal_def isDigit_def HasPrefix_def TrimPrefix_def indexPrefix_def)
  show "resolve insertionSort Int64 [''kb-rev99999999999999999999'']
     = [\<lparr>Index = ''kb-rev1'', Rev = 1\<rparr>]"
    by (simp add: resolve_def HasPrefix_def TrimPrefix_def indexPrefix_def Atoi_def ParseInt_def
        ParseUint_def maxVal_def to_uint64_def cutoff10_def maxUint64_def to_int_def to_int64_def
        wrap_signed_def insertionSort_def)
  show "resolve insertionSort Int32 [''kb-rev99999999999999999999'']
     = [\<lparr>Index = ''kb-rev1'', Rev = 1\<rparr>]"
    by (simp add: resolve_def HasPrefix_def TrimPrefix_def indexPrefix_def Atoi_def ParseInt_def
        ParseUint_def maxVal_def to_uint64_def cutoff10_def maxUint64_def to_int_def to_int64_def
        wrap_signed_def insertionSort_def)
qed

text \<open>
  Claim C2. The output of the resolver is sorted by revision number, descending: at every
  pair of adjacent positions \<open>i\<close> and \<open>i + 1\<close> the revision at \<open>i\<close> is at least the one
  at \<open>i + 1\<close>. This holds for every input list, so for those whose filtered result is not
  empty.
\<close>

theorem resolve_sorted_descending:
  assumes ok: "sort_Slice_ok sort_Slice"
  shows "\<forall>i. i + 1 < length (resolve sort_Slice a names) \<longrightarrow>
           Rev (resolve sort_Slice a names ! i) \<ge> Rev (resolve sort_Slice a names ! (i + 1))"
proof (cases "Indices_loop a names [] = []")
  case True
  then show ?thesis by (simp add: resolve_eq [OF ok])
next
  case False
  have "sorted_wrt (\<lambda>x y. Rev x \<ge> Rev y) (resolve sort_Slice a names)"
    using False sort_Slice_Rev_sorted [OF ok] by (simp add: resolve_eq [OF ok])
  then show ?thesis by (simp add: sorted_wrt_iff_nth_less)
qed

theorem resolve_sorted_descending_witness:
  "sort_Slice_ok (insertionSort :: DataIndex sorter) \<and>
   length (resolve insertionSort Int64 [''kb-rev1'', ''kb-rev3'', ''other-index'', ''kb-rev2'']) = 3 \<and>
   Rev (resolve insertionSort Int64 [''kb-rev1'', ''kb-rev3'', ''other-index'', ''kb-rev2''] ! 0)
     \<ge> Rev (resolve insertionSort Int64 [''kb-rev1'', ''kb-rev3'', ''other-index'', ''kb-rev2''] ! 1) \<and>
   Rev (resolve insertionSort Int64 [''kb-rev1'', ''kb-rev3'', ''other-index'', ''kb-rev2''] ! 1)
     \<ge> Rev (resolve insertionSort Int64 [''kb-rev1'', ''kb-rev3'', ''other-index'', ''kb-rev2''] ! 2)"
proof -
  let ?out = "resolve insertionSort Int64 [''kb-rev1'', ''kb-rev3'', ''other-index'', ''kb-rev2'']"
  have ok: "sort_Slice_ok (insertionSort :: DataIndex sorter)" by (rule insertionSort_ok)
  have len: "length ?out = 3"
    by (simp add: resolve_def HasPrefix_def TrimPrefix_def indexPrefix_def Atoi_def to_int_def
        wrap_signed_def sub_byte_def insertionSort_def)
  note sorted = resolve_sorted_descending [OF ok, of Int64
      "[''kb-rev1'', ''kb-rev3'', ''other-index'', ''kb-rev2'']"]
  have "Rev (?out ! 0) \<ge> Rev (?out ! 1)" using sorted [rule_format, of 0] len by simp
  moreover have "Rev (?out ! 1) \<ge> Rev (?out ! 2)"
    using sorted [rule_format, of 1] len by (simp add: numeral_2_eq_2)
  ultimately show ?thesis using ok len by (intro conjI)
qed

text \<open>
  Claim C3. When no name of the input both starts with the prefix and continues with an
  integer that parses (a base-10 signed integer in the range of \<open>int\<close>), the resolver
  returns exactly the one synthetic entry with index \<open>prefix + "1"\<close> and revision 1.
\<close>

theorem resolve_fallback:
  assumes ok: "sort_Slice_ok sort_Slice"
    and none: "\<forall>name \<in> set names.
      \<not> (HasPrefix name indexPrefix \<and>
         (\<exists>N. signed_decimal (TrimPrefix name indexPrefix) = Some N \<and>
              minInt a \<le> N \<and> N \<le> maxInt a))"
  shows "resolve sort_Slice a names = [\<lparr>Index = indexPrefix @ ''1'', Rev = 1\<rparr>]"
proof -
  have "Indices_loop a names [] = []"
    using none unfolding Indices_loop_empty_iff Atoi_accepts_iff by blast
  then show ?thesis by (simp add: resolve_eq [OF ok])
qed

theorem resolve_fallback_witness:
  "sort_Slice_ok (insertionSort :: DataIndex sorter) \<and>
   signed_decimal (TrimPrefix ''kb-rev-legacy'' indexPrefix) = None \<and>
   signed_decimal (TrimPrefix ''kb-rev'' indexPrefix) = None \<and>
   resolve insertionSort Int64 [''other-index'', ''kb-rev-legacy'', ''kb-rev'']
     = [\<lparr>Index = ''kb-rev1'', Rev = 1\<rparr>]"
proof -
  have ok: "sort_Slice_ok (insertionSort :: DataIndex sorter)" by (rule insertionSort_ok)
  have a: "\<not> HasPrefix ''other-index'' indexPrefix" by (simp add: HasPrefix_def indexPrefix_def)
  have b: "signed_decimal (TrimPrefix ''kb-rev-legacy'' indexPrefix) = None"
    by (simp add: signed_decimal_def isDigit_def HasPrefix_def TrimPrefix_def indexPrefix_def)
  have c: "signed_decimal (TrimPrefix ''kb-rev'' indexPrefix) = None"
    by (simp add: signed_decimal_def isDigit_def HasPrefix_def TrimPrefix_def indexPrefix_def)
  have none: "\<forall>name \<in> set [''other-index'', ''kb-rev-legacy'', ''kb-rev''].
      \<not> (HasPrefix name indexPrefix \<and>
         (\<exists>N. signed_decimal (TrimPrefix name indexPrefix) = Some N \<and>
              minInt Int64 \<le> N \<and> N \<le> maxInt Int64))"
    using a b c by simp
  have "resolve insertionSort Int64 [''other-index'', ''kb-rev-legacy'', ''kb-rev'']
     = [\<lparr>Index = indexPrefix @ ''1'', Rev = 1\<rparr>]"
    using ok none by (rule resolve_fallback)
  then show ?thesis using ok b c by (simp add: indexPrefix_def)
qed

text \<open>
  Claim C4. For every list of index names, the empty list and lists without a matching
  name included, the output of the resolver is not empty.
\<close>

theorem resolve_nonempty:
  assumes ok: "sort_Slice_ok sort_Slice"
  shows "resolve sort_Slice a names \<noteq> []"
  using sort_Slice_length [OF ok, of "\<lambda>x y. Rev x > Rev y" "Indices_loop a names []"]
  by (auto simp: resolve_eq [OF ok])

theorem resolve_nonempty_witness:
  "sort_Slice_ok (insertionSort :: DataIndex sorter) \<and>
   resolve insertionSort Int64 [] \<noteq> [] \<and>
   resolve insertionSort Int64 [''other-index''] \<noteq> []"
  using resolve_nonempty [OF insertionSort_ok, of Int64 "[]"]
    resolve_nonempty [OF insertionSort_ok, of Int64 "[''other-index'']"]
    insertionSort_ok [where ?'a = DataIndex]
  by simp

text \<open>
  Claim C10. The parse accepts an explicit sign and leading zeros: the names
  \<open>kb-rev3\<close>, \<open>kb-rev+3\<close> and \<open>kb-rev03\<close> each give an entry of revision 3, so the
  output holds distinct index names with one revision number, and \<open>kb-rev-3\<close> gives an
  entry of the negative revision \<open>-3\<close>. The output for these four names consists of
  exactly these four entries, the negative one last.
\<close>

theorem resolve_sign_and_leading_zeros:
  assumes ok: "sort_Slice_ok sort_Slice"
  shows "mset (resolve sort_Slice a [''kb-rev3'', ''kb-rev+3'', ''kb-rev03'', ''kb-rev-3'']) =
           {#\<lparr>Index = ''kb-rev3'', Rev = 3\<rparr>, \<lparr>Index = ''kb-rev+3'', Rev = 3\<rparr>,
             \<lparr>Index = ''kb-rev03'', Rev = 3\<rparr>, \<lparr>Index = ''kb-rev-3'', Rev = - 3\<rparr>#} \<and>
         map Rev (resolve sort_Slice a [''kb-rev3'', ''kb-rev+3'', ''kb-rev03'', ''kb-rev-3''])
           = [3, 3, 3, - 3]"
proof -
  let ?names = "[''kb-rev3'', ''kb-rev+3'', ''kb-rev03'', ''kb-rev-3'']"
  let ?entries = "[\<lparr>Index = ''kb-rev3'', Rev = 3\<rparr>, \<lparr>Index = ''kb-rev+3'', Rev = 3\<rparr>,
     \<lparr>Index = ''kb-rev03'', Rev = 3\<rparr>, \<lparr>Index = ''kb-rev-3'', Rev = - 3\<rparr>]"
  have out: "resolve sort_Slice a ?names = sort_Slice (\<lambda>x y. Rev x > Rev y) ?entries"
    unfolding resolve_eq [OF ok] Indices_loop_signed by simp
  have perm: "mset (resolve sort_Slice a ?names) = mset ?entries"
    unfolding out by (rule sort_Slice_mset [OF ok])
  have "sorted_wrt (\<lambda>x y. Rev x \<ge> Rev y) (resolve sort_Slice a ?names)"
    unfolding out by (rule sort_Slice_Rev_sorted [OF ok])
  then have "map Rev (resolve sort_Slice a ?names) = rev (sort (map Rev ?entries))"
    using perm by (rule sorted_descending_keys)
  then have "map Rev (resolve sort_Slice a ?names) = [3, 3, 3, - 3]" by simp
  with perm show ?thesis by simp
qed

theorem resolve_sign_and_leading_zeros_witness:
  "sort_Slice_ok (insertionSort :: DataIndex sorter) \<and>
   map Rev (resolve insertionSort Int64 [''kb-rev3'', ''kb-rev+3'', ''kb-rev03'', ''kb-rev-3''])
     = [3, 3, 3, - 3] \<and>
   resolve insertionSort Int64 [''kb-rev3'', ''kb-rev+3'', ''kb-rev03'', ''kb-rev-3''] =
     [\<lparr>Index = ''kb-rev3'', Rev = 3\<rparr>, \<lparr>Index = ''kb-rev+3'', Rev = 3\<rparr>,
      \<lparr>Index = ''kb-rev03'', Rev = 3\<rparr>, \<lparr>Index = ''kb-rev-3'', Rev = - 3\<rparr>]"
proof -
  have ok: "sort_Slice_ok (insertionSort :: DataIndex sorter)" by (rule insertionSort_ok)
  have revs: "map Rev (resolve insertionSort Int64 [''kb-rev3'', ''kb-rev+3'', ''kb-rev03'', ''kb-rev-3''])
     = [3, 3, 3, - 3]"
    using resolve_sign_and_leading_zeros [OF ok, of Int64] by (rule conjunct2)
  have val: "resolve insertionSort Int64 [''kb-rev3'', ''kb-rev+3'', ''kb-rev03'', ''kb-rev-3''] =
     [\<lparr>Index = ''kb-rev3'', Rev = 3\<rparr>, \<lparr>Index = ''kb-rev+3'', Rev = 3\<rparr>,
      \<lparr>Index = ''kb-rev03'', Rev = 3\<rparr>, \<lparr>Index = ''kb-rev-3'', Rev = - 3\<rparr>]"
    by (simp add: resolve_def HasPrefix_def TrimPrefix_def indexPrefix_def Atoi_def to_int_def
        wrap_signed_def sub_byte_def insertionSort_def)
  from ok revs val show ?thesis by (intro conjI)
qed


section \<open>The claims about the Kind Aggregator\<close>

lemma Kinds_loop_eq:
  "Kinds_loop fmt buckets kinds =
    kinds @ map (\<lambda>bucket. \<lparr>Kind = Sprintf_v fmt (Key bucket), Count = DocCount bucket\<rparr>) buckets"
  by (induction buckets arbitrary: kinds) simp_all

text \<open>
  Claim C5. For every bucket sequence the aggregator returns one entry per bucket, in the
  order of the buckets: the entry at each position has the rendering of that bucket's
  \<open>Key\<close> as its \<open>Kind\<close> and that bucket's \<open>DocCount\<close>, a 64-bit integer, unchanged as
  its \<open>Count\<close>.
\<close>

theorem aggregate_buckets:
  "aggregate fmt (Some its) =
     map (\<lambda>bucket. \<lparr>Kind = Sprintf_v fmt (Key bucket), Count = DocCount bucket\<rparr>) (Buckets its) \<and>
   length (aggregate fmt (Some its)) = length (Buckets its) \<and>
   map (\<lambda>kind. sint (Count kind)) (aggregate fmt (Some its)) =
     map (\<lambda>bucket. sint (DocCount bucket)) (Buckets its) \<and>
   map Kind (aggregate fmt (Some its)) = map (\<lambda>bucket. Sprintf_v fmt (Key bucket)) (Buckets its)"
  by (simp add: aggregate_def Kinds_loop_eq comp_def)

theorem aggregate_buckets_witness:
  "aggregate (\<lambda>x :: unit. '''')
     (Some \<lparr>Buckets = [\<lparr>Key = KeyString ''doc'', DocCount = 5\<rparr>,
                       \<lparr>Key = KeyString ''page'', DocCount = 2\<rparr>]\<rparr>) =
   [\<lparr>Kind = ''doc'', Count = 5\<rparr>, \<lparr>Kind = ''page'', Count = 2\<rparr>]"
  using aggregate_buckets [of "\<lambda>x :: unit. ''''"
      "\<lparr>Buckets = [\<lparr>Key = KeyString ''doc'', DocCount = 5\<rparr>,
                   \<lparr>Key = KeyString ''page'', DocCount = 2\<rparr>]\<rparr>"]
  by simp

text \<open>
  Claim C6. When the term aggregation is absent, or present with no bucket, the
  aggregator returns the empty sequence, and the handler does not fail: it renders the
  view with an empty \<open>Kinds\<close> and the resolved indices.
\<close>

theorem aggregate_absent_or_empty:
  "aggregate fmt None = [] \<and>
   aggregate fmt (Some \<lparr>Buckets = []\<rparr>) = [] \<and>
   dashboard sort_Slice a fmt
     \<lparr>CatIndices_Do = Inr res, Search_Do = Inr \<lparr>Aggregations = aggs(''kinds'' := None)\<rparr>\<rparr> c =
     ([CatIndicesCall, SearchCall],
      Render StatusOK ''index'' \<lparr>Kinds = [], Indices = resolve sort_Slice a res\<rparr>) \<and>
   dashboard sort_Slice a fmt
     \<lparr>CatIndices_Do = Inr res,
      Search_Do = Inr \<lparr>Aggregations = aggs(''kinds'' \<mapsto> \<lparr>Buckets = []\<rparr>)\<rparr>\<rparr> c =
     ([CatIndicesCall, SearchCall],
      Render StatusOK ''index'' \<lparr>Kinds = [], Indices = resolve sort_Slice a res\<rparr>)"
  by (simp add: aggregate_def dashboard_def Terms_def)

theorem aggregate_absent_or_empty_witness:
  "dashboard insertionSort Int64 (\<lambda>x :: unit. '''')
     \<lparr>CatIndices_Do = Inr [''kb-rev2'', ''kb-rev7''],
      Search_Do = Inr \<lparr>Aggregations = Map.empty(''kinds'' := None)\<rparr>\<rparr>
     \<lparr>Path = ''/'', QueryParams = []\<rparr> =
   ([CatIndicesCall, SearchCall] :: Call list,
    Render StatusOK ''index''
      \<lparr>Kinds = [], Indices = [\<lparr>Index = ''kb-rev7'', Rev = 7\<rparr>, \<lparr>Index = ''kb-rev2'', Rev = 2\<rparr>]\<rparr>
      :: unit Outcome)"
proof -
  have "resolve insertionSort Int64 [''kb-rev2'', ''kb-rev7''] =
    [\<lparr>Index = ''kb-rev7'', Rev = 7\<rparr>, \<lparr>Index = ''kb-rev2'', Rev = 2\<rparr>]"
    by (simp add: resolve_def HasPrefix_def TrimPrefix_def indexPrefix_def Atoi_def to_int_def
        wrap_signed_def sub_byte_def insertionSort_def)
  moreover have "dashboard insertionSort Int64 (\<lambda>x :: unit. '''')
     \<lparr>CatIndices_Do = Inr [''kb-rev2'', ''kb-rev7''],
      Search_Do = Inr \<lparr>Aggregations = Map.empty(''kinds'' := None)\<rparr>\<rparr>
     \<lparr>Path = ''/'', QueryParams = []\<rparr> =
   ([CatIndicesCall, SearchCall] :: Call list,
    Render StatusOK ''index''
      \<lparr>Kinds = [], Indices = resolve insertionSort Int64 [''kb-rev2'', ''kb-rev7'']\<rparr>
      :: unit Outcome)"
    by (intro aggregate_absent_or_empty [THEN conjunct2, THEN conjunct2, THEN conjunct1])
  ultimately show ?thesis by (simp only:)
qed


section \<open>The claims about the handler and the middleware\<close>

text \<open>
  Claim C7, as amended. A request on a route other than \<open>/\<close> whose \<open>access_token\<close>
  parameter differs from the configured token is answered with 403 by the middleware:
  the next handler does not run, whatever it is, and no call reaches the search engine.
  A request on the route \<open>/\<close> is handed to the next handler without any check of its
  token.
\<close>

theorem access_token_gate:
  "(Path c \<noteq> ''/'' \<and> QueryParam c ''access_token'' \<noteq> envAccessToken \<longrightarrow>
      access_token_middleware envAccessToken next c =
        ([], String StatusForbidden ''invalid access_token'')) \<and>
   (Path c = ''/'' \<longrightarrow> access_token_middleware envAccessToken next c = next c)"
  by (simp add: access_token_middleware_def)

theorem access_token_gate_witness:
  "Path \<lparr>Path = ''/kinds'', QueryParams = [(''access_token'', ''wrong'')]\<rparr> \<noteq> ''/'' \<and>
   QueryParam \<lparr>Path = ''/kinds'', QueryParams = [(''access_token'', ''wrong'')]\<rparr> ''access_token''
     \<noteq> ''secret'' \<and>
   access_token_middleware ''secret''
     (dashboard insertionSort Int64 (\<lambda>x :: unit. '''')
        \<lparr>CatIndices_Do = Inr [''kb-rev2''], Search_Do = Inr \<lparr>Aggregations = Map.empty\<rparr>\<rparr>)
     \<lparr>Path = ''/kinds'', QueryParams = [(''access_token'', ''wrong'')]\<rparr> =
   ([], String StatusForbidden ''invalid access_token'' :: unit Outcome)"
proof -
  let ?c = "\<lparr>Path = ''/kinds'', QueryParams = [(''access_token'', ''wrong'')]\<rparr>"
  have p: "Path ?c \<noteq> ''/''" by simp
  have q: "QueryParam ?c ''access_token'' \<noteq> ''secret''" by (simp add: QueryParam_def)
  from p q show ?thesis
    using access_token_gate [of ?c "''secret''"
        "dashboard insertionSort Int64 (\<lambda>x :: unit. '''')
          \<lparr>CatIndices_Do = Inr [''kb-rev2''], Search_Do = Inr \<lparr>Aggregations = Map.empty\<rparr>\<rparr>"]
    by blast
qed

text \<open>
  Claim C7 as it is written fails on the dashboard root: a request on \<open>/\<close> with a wrong
  token passes the middleware, the handler calls the search engine twice, runs the
  resolver and the aggregator, and renders the view.
\<close>

theorem access_token_root_counterexample:
  "QueryParam \<lparr>Path = ''/'', QueryParams = [(''access_token'', ''wrong'')]\<rparr> ''access_token''
     \<noteq> ''secret'' \<and>
   access_token_middleware ''secret''
     (dashboard insertionSort Int64 (\<lambda>x :: unit. '''')
        \<lparr>CatIndices_Do = Inr [''kb-rev2''],
         Search_Do = Inr \<lparr>Aggregations =
           [''kinds'' \<mapsto> \<lparr>Buckets = [\<lparr>Key = KeyString ''doc'', DocCount = 5\<rparr>]\<rparr>]\<rparr>\<rparr>)
     \<lparr>Path = ''/'', QueryParams = [(''access_token'', ''wrong'')]\<rparr> =
   ([CatIndicesCall, SearchCall],
    Render StatusOK ''index''
      \<lparr>Kinds = [\<lparr>Kind = ''doc'', Count = 5\<rparr>], Indices = [\<lparr>Index = ''kb-rev2'', Rev = 2\<rparr>]\<rparr>
      :: unit Outcome)"
  by (simp add: QueryParam_def access_token_middleware_def dashboard_def aggregate_def Terms_def
      resolve_def HasPrefix_def TrimPrefix_def indexPrefix_def Atoi_def to_int_def
      wrap_signed_def sub_byte_def insertionSort_def)

text \<open>
  Claim C8. When the call that lists the indices fails, the handler returns that error
  unchanged after this one call; when the call that runs the aggregation fails, the
  handler returns that error unchanged after one call of each kind. In both cases nothing
  is rendered: no view, no partial result, and no call is repeated.
\<close>

theorem upstream_failure_aborts:
  "dashboard sort_Slice a fmt \<lparr>CatIndices_Do = Inl err, Search_Do = search\<rparr> c =
     ([CatIndicesCall], Failed err) \<and>
   dashboard sort_Slice a fmt \<lparr>CatIndices_Do = Inr res, Search_Do = Inl err\<rparr> c =
     ([CatIndicesCall, SearchCall], Failed err)"
  by (simp add: dashboard_def)

theorem upstream_failure_aborts_witness:
  "dashboard insertionSort Int64 (\<lambda>x :: unit. '''')
     \<lparr>CatIndices_Do = Inl ''connection refused'', Search_Do = Inr \<lparr>Aggregations = Map.empty\<rparr>\<rparr>
     \<lparr>Path = ''/'', QueryParams = []\<rparr> =
     ([CatIndicesCall], Failed ''connection refused'') \<and>
   dashboard insertionSort Int64 (\<lambda>x :: unit. '''')
     \<lparr>CatIndices_Do = Inr [''kb-rev2''], Search_Do = Inl ''timeout''\<rparr>
     \<lparr>Path = ''/'', QueryParams = []\<rparr> =
     ([CatIndicesCall, SearchCall], Failed ''timeout'')"
  using upstream_failure_aborts [of insertionSort Int64 "\<lambda>x :: unit. ''''" "''connection refused''"
      "Inr \<lparr>Aggregations = Map.empty\<rparr>" "\<lparr>Path = ''/'', QueryParams = []\<rparr>"]
    upstream_failure_aborts [of insertionSort Int64 "\<lambda>x :: unit. ''''" "''timeout''"
      "Inl ''timeout''" "\<lparr>Path = ''/'', QueryParams = []\<rparr>" "[''kb-rev2'']"]
  by simp

section \<open>Sorting procedures and ties\<close>

text \<open>
  The contract of \<open>sort.Slice\<close> leaves open the order among entries of one revision
  number, and nothing else: any two sorting procedures that meet it give the same entries
  and the same sequence of revision numbers, and the same output when the revision
  numbers collected are distinct.
\<close>

lemma resolve_up_to_ties:
  assumes ok1: "sort_Slice_ok sort1" and ok2: "sort_Slice_ok sort2"
  shows "mset (resolve sort1 a names) = mset (resolve sort2 a names)"
    and "map Rev (resolve sort1 a names) = map Rev (resolve sort2 a names)"
proof -
  let ?lt = "\<lambda>x y :: DataIndex. Rev x > Rev y"
  let ?found = "Indices_loop a names []"
  show perm: "mset (resolve sort1 a names) = mset (resolve sort2 a names)"
    by (simp add: resolve_eq [OF ok1] resolve_eq [OF ok2] sort_Slice_mset [OF ok1]
        sort_Slice_mset [OF ok2])
  show "map Rev (resolve sort1 a names) = map Rev (resolve sort2 a names)"
  proof (cases "?found = []")
    case True
    then show ?thesis by (simp add: resolve_eq [OF ok1] resolve_eq [OF ok2])
  next
    case False
    have "map Rev (sort1 ?lt ?found) = rev (sort (map Rev ?found))"
      using sort_Slice_Rev_sorted [OF ok1] sort_Slice_mset [OF ok1] by (rule sorted_descending_keys)
    moreover have "map Rev (sort2 ?lt ?found) = rev (sort (map Rev ?found))"
      using sort_Slice_Rev_sorted [OF ok2] sort_Slice_mset [OF ok2] by (rule sorted_descending_keys)
    ultimately show ?thesis using False by (simp add: resolve_eq [OF ok1] resolve_eq [OF ok2])
  qed
qed

lemma resolve_without_ties:
  assumes ok1: "sort_Slice_ok sort1" and ok2: "sort_Slice_ok sort2"
    and dist: "distinct (map Rev (Indices_loop a names []))"
  shows "resolve sort1 a names = resolve sort2 a names"
proof (cases "Indices_loop a names [] = []")
  case True
  then show ?thesis by (simp add: resolve_eq [OF ok1] resolve_eq [OF ok2])
next
  case False
  let ?xs = "resolve sort1 a names" and ?ys = "resolve sort2 a names"
  have s1: "set ?xs = set (Indices_loop a names [])"
    using False by (simp add: set_resolve [OF ok1])
  have s2: "set ?ys = set (Indices_loop a names [])"
    using False by (simp add: set_resolve [OF ok2])
  have "inj_on Rev (set (Indices_loop a names []))" using dist by (simp add: distinct_map)
  then have "inj_on Rev (set ?xs \<union> set ?ys)" by (simp add: s1 s2)
  moreover have "map Rev ?xs = map Rev ?ys" using ok1 ok2 by (rule resolve_up_to_ties(2))
  ultimately show ?thesis by (simp add: inj_on_map_eq_map)
qed

end
